theory Spec2Isabelle
  imports Main "HOL-Library.Word" "HOL-Library.Multiset"
begin

section \<open>Data model\<close>

text \<open>
  The analyzer of \<^verbatim>\<open>leak_analyzer_old.cc\<close> consumes ranked lists of (value, count)
  entries. The key type \<^verbatim>\<open>ValueType\<close> is opaque and totally ordered (it is the key of a
  \<^verbatim>\<open>std::set\<close> and of a \<^verbatim>\<open>std::map\<close>), so it is a type variable of class linorder.

  Modelled from the spec: the declaration of \<^verbatim>\<open>RankedList::Entry\<close> (the header
  \<^verbatim>\<open>ranked_list.h\<close> is not among the sources). A count is a 32-bit machine integer.
  The source stores it into a \<^verbatim>\<open>uint32_t\<close>, subtracts a \<^verbatim>\<open>uint32_t\<close> from it and passes
  the difference to \<^verbatim>\<open>Add\<close>; all of that is arithmetic modulo \<open>2 ^ 32\<close>, which is what
  \<open>32 word\<close> does. Where the source compares counts (\<^verbatim>\<open>count > 0\<close>,
  \<^verbatim>\<open>entry.count > next_entry.count * 2\<close>) the word is read as two's complement: the
  source's own comment speaks of deltas that are "0 or negative", and the spec calls
  the difference signed.
\<close>

record 'v Entry =
  value_of :: 'v
  count_of :: "32 word"

text \<open>
  Modelled from the spec: \<^verbatim>\<open>RankedList\<close> (\<^verbatim>\<open>ranked_list.h\<close> and \<^verbatim>\<open>ranked_list.cc\<close> are
  not among the sources): a sequence of entries, descending by count, built with a
  capacity; \<^verbatim>\<open>Add\<close> inserts an entry keeping the descending order, an entry that ties
  with earlier ones goes behind them, and what exceeds the capacity is cut off.
\<close>

record 'v RankedList =
  max_size :: nat
  entries :: "'v Entry list"

definition RankedList_new :: "nat \<Rightarrow> 'v RankedList" where
  "RankedList_new n = \<lparr>max_size = n, entries = []\<rparr>"

fun insert_ranked :: "'v Entry \<Rightarrow> 'v Entry list \<Rightarrow> 'v Entry list" where
  "insert_ranked e [] = [e]"
| "insert_ranked e (x # xs) =
     (if count_of x <s count_of e then e # x # xs else x # insert_ranked e xs)"

definition Add :: "'v RankedList \<Rightarrow> 'v \<Rightarrow> 32 word \<Rightarrow> 'v RankedList" where
  "Add rl v c =
     rl\<lparr>entries := take (max_size rl) (insert_ranked \<lparr>value_of = v, count_of = c\<rparr> (entries rl))\<rparr>"

text \<open>
  The analyzer's fields. \<^verbatim>\<open>suspected_histogram_\<close> is a \<^verbatim>\<open>std::map\<close> from value to
  score: an association list kept in ascending key order, which is the order in which
  the source iterates over it. \<^verbatim>\<open>suspected_leaks_\<close> is a vector of values.

  Modelled from the spec: the types of \<^verbatim>\<open>ranking_size_\<close>, \<^verbatim>\<open>score_threshold_\<close> and of
  the scores (\<^verbatim>\<open>leak_analyzer.h\<close> is not among the sources): the spec calls them
  integers that count entries, cycles and points, so they are natural numbers.
\<close>

record 'v LeakAnalyzer =
  ranking_size :: nat
  score_threshold :: nat
  ranked_entries :: "'v RankedList"
  prev_ranked_entries :: "'v RankedList"
  suspected_histogram :: "('v \<times> nat) list"
  suspected_leaks :: "'v list"

text \<open>
  Modelled from the spec: the constructor (\<^verbatim>\<open>leak_analyzer.h\<close> is not among the
  sources). Both snapshots start empty with capacity \<open>ranking_size\<close>; no class is
  tracked and none is reported.
\<close>

definition LeakAnalyzer_new :: "nat \<Rightarrow> nat \<Rightarrow> 'v LeakAnalyzer" where
  "LeakAnalyzer_new rs th =
     \<lparr>ranking_size = rs, score_threshold = th,
      ranked_entries = RankedList_new rs, prev_ranked_entries = RankedList_new rs,
      suspected_histogram = [], suspected_leaks = []\<rparr>"

definition kSuspicionScoreIncrease :: nat where
  "kSuspicionScoreIncrease = 1"

section \<open>GetPreviousCountForValue\<close>

text \<open>
  The linear search over \<^verbatim>\<open>prev_ranked_entries_\<close>. The source returns a flag and writes
  the count through a pointer only when it finds the value; the model takes the
  pointee's old content and returns the flag with the new content.
\<close>

fun previous_count :: "'v Entry list \<Rightarrow> 'v \<Rightarrow> 32 word \<Rightarrow> bool \<times> 32 word" where
  "previous_count [] v c = (False, c)"
| "previous_count (entry # rest) v c =
     (if value_of entry = v then (True, count_of entry) else previous_count rest v c)"

definition GetPreviousCountForValue ::
    "'v LeakAnalyzer \<Rightarrow> 'v \<Rightarrow> 32 word \<Rightarrow> bool \<times> 32 word" where
  "GetPreviousCountForValue s v c = previous_count (entries (prev_ranked_entries s)) v c"

section \<open>AnalyzeDeltas\<close>

text \<open>
  The scan for the first major drop. \<open>first_drop\<close> walks the pairs of neighbours as
  \<^verbatim>\<open>entry_iter\<close> and \<^verbatim>\<open>next_entry_iter\<close> do and returns the index of
  \<^verbatim>\<open>next_entry_iter\<close> at the first pair with \<^verbatim>\<open>entry.count > next_entry.count * 2\<close>.
  The product is a 32-bit product. \<open>drop_position\<close> adds the two guards around the
  loop: more than one entry, and a first count above 0; \<open>None\<close> is
  \<^verbatim>\<open>found_drop == false\<close>.
\<close>

fun first_drop :: "'v Entry list \<Rightarrow> nat option" where
  "first_drop (entry # next_entry # rest) =
     (if count_of next_entry * 2 <s count_of entry then Some 1
      else map_option Suc (first_drop (next_entry # rest)))"
| "first_drop _ = None"

definition drop_position :: "'v Entry list \<Rightarrow> nat option" where
  "drop_position ds =
     (if length ds > 1 then
        (case ds of
           [] \<Rightarrow> None
         | entry # _ \<Rightarrow> if 0 <s count_of entry then first_drop ds else None)
      else None)"

text \<open>
  \<^verbatim>\<open>current_suspects\<close> is a \<^verbatim>\<open>std::set\<close>: the values before the drop position, inserted
  one by one; the list is the set in its iteration order (ascending, no duplicates).
\<close>

definition current_suspects :: "('v::linorder) RankedList \<Rightarrow> 'v list" where
  "current_suspects ranked_deltas =
     (case drop_position (entries ranked_deltas) of
        None \<Rightarrow> []
      | Some p \<Rightarrow> fold insort_insert (map value_of (take p (entries ranked_deltas))) [])"

text \<open>The first loop over the histogram erases every value that is not a current suspect.\<close>

definition erase_unsuspected :: "'v list \<Rightarrow> ('v \<times> nat) list \<Rightarrow> ('v \<times> nat) list" where
  "erase_unsuspected suspects h = filter (\<lambda>(v, score). v \<in> set suspects) h"

text \<open>
  \<open>histogram_put\<close> is the assignment \<^verbatim>\<open>suspected_histogram_[value] = score\<close> and the
  update through an iterator: it replaces the score of a present key and inserts an
  absent key at its place in the key order.
\<close>

fun histogram_put :: "('v::linorder) \<Rightarrow> nat \<Rightarrow> ('v \<times> nat) list \<Rightarrow> ('v \<times> nat) list" where
  "histogram_put v n [] = [(v, n)]"
| "histogram_put v n ((k, m) # h) =
     (if v < k then (v, n) # (k, m) # h
      else if v = k then (v, n) # h
      else (k, m) # histogram_put v n h)"

text \<open>The body of the second loop, for one current suspect, and the loop.\<close>

definition increase_score :: "nat \<Rightarrow> ('v::linorder) \<Rightarrow> ('v \<times> nat) list \<Rightarrow> ('v \<times> nat) list" where
  "increase_score rs v h =
     (case map_of h v of
        Some score \<Rightarrow> histogram_put v (score + kSuspicionScoreIncrease) h
      | None \<Rightarrow> if length h < rs then histogram_put v kSuspicionScoreIncrease h else h)"

definition increase_scores :: "nat \<Rightarrow> ('v::linorder) list \<Rightarrow> ('v \<times> nat) list \<Rightarrow> ('v \<times> nat) list" where
  "increase_scores rs suspects h = fold (increase_score rs) suspects h"

text \<open>
  The third loop rebuilds \<^verbatim>\<open>suspected_leaks_\<close>: it walks the histogram in key order,
  leaves the loop when the list already holds more than \<open>ranking_size\<close> values, and
  appends a value whose score has reached the threshold.
\<close>

fun collect_leaks :: "nat \<Rightarrow> nat \<Rightarrow> ('v \<times> nat) list \<Rightarrow> 'v list \<Rightarrow> 'v list" where
  "collect_leaks rs th [] leaks = leaks"
| "collect_leaks rs th ((v, score) # h) leaks =
     (if length leaks > rs then leaks
      else collect_leaks rs th h (if score \<ge> th then leaks @ [v] else leaks))"

definition AnalyzeDeltas :: "('v::linorder) LeakAnalyzer \<Rightarrow> 'v RankedList \<Rightarrow> 'v LeakAnalyzer" where
  "AnalyzeDeltas s ranked_deltas =
     (let suspects = current_suspects ranked_deltas;
          h = increase_scores (ranking_size s) suspects
                (erase_unsuspected suspects (suspected_histogram s))
      in s\<lparr>suspected_histogram := h,
           suspected_leaks := collect_leaks (ranking_size s) (score_threshold s) h []\<rparr>)"

section \<open>AddSample\<close>

text \<open>
  The loop of \<^verbatim>\<open>AddSample\<close> over the new ranked list: an entry reaches the list of deltas
  only when \<^verbatim>\<open>GetPreviousCountForValue\<close> finds its value in the previous list.
\<close>

definition add_delta :: "'v LeakAnalyzer \<Rightarrow> 'v RankedList \<Rightarrow> 'v Entry \<Rightarrow> 'v RankedList" where
  "add_delta s ranked_deltas entry =
     (let (found, prev_count) = GetPreviousCountForValue s (value_of entry) 0
      in if found then Add ranked_deltas (value_of entry) (count_of entry - prev_count)
         else ranked_deltas)"

definition compute_deltas :: "'v LeakAnalyzer \<Rightarrow> 'v RankedList \<Rightarrow> 'v RankedList" where
  "compute_deltas s ranked_list =
     foldl (add_delta s) (RankedList_new (ranking_size s)) (entries ranked_list)"

definition save_entries :: "'v LeakAnalyzer \<Rightarrow> 'v RankedList \<Rightarrow> 'v LeakAnalyzer" where
  "save_entries s ranked_list =
     s\<lparr>prev_ranked_entries := ranked_entries s, ranked_entries := ranked_list\<rparr>"

definition AddSample :: "('v::linorder) LeakAnalyzer \<Rightarrow> 'v RankedList \<Rightarrow> 'v LeakAnalyzer" where
  "AddSample s ranked_list =
     (let s' = save_entries s ranked_list
      in AnalyzeDeltas s' (compute_deltas s' ranked_list))"

text \<open>
  The values of the two locals of a call \<^verbatim>\<open>AddSample(ranked_list)\<close> in state \<open>s\<close>: the
  list of deltas handed to \<^verbatim>\<open>AnalyzeDeltas\<close>, and the set \<^verbatim>\<open>current_suspects\<close> built from
  it.
\<close>

definition cycle_deltas :: "'v LeakAnalyzer \<Rightarrow> 'v RankedList \<Rightarrow> 'v RankedList" where
  "cycle_deltas s ranked_list = compute_deltas (save_entries s ranked_list) ranked_list"

definition cycle_suspects :: "('v::linorder) LeakAnalyzer \<Rightarrow> 'v RankedList \<Rightarrow> 'v list" where
  "cycle_suspects s ranked_list = current_suspects (cycle_deltas s ranked_list)"

text \<open>A run of the analyzer: one call of \<^verbatim>\<open>AddSample\<close> per submitted snapshot.\<close>

definition run :: "('v::linorder) LeakAnalyzer \<Rightarrow> 'v RankedList list \<Rightarrow> 'v LeakAnalyzer" where
  "run s snapshots = foldl AddSample s snapshots"

section \<open>Notions of the specification\<close>

text \<open>
  The cliff of the specification, over the integers: position \<open>i\<close> of a list of deltas
  is a cliff when it has a successor and its delta, read as a signed number, exceeds
  twice the successor's.
\<close>

definition delta_at :: "'v Entry list \<Rightarrow> nat \<Rightarrow> int" where
  "delta_at ds i = sint (count_of (ds ! i))"

definition cliff_at :: "'v Entry list \<Rightarrow> nat \<Rightarrow> bool" where
  "cliff_at ds i = (Suc i < length ds \<and> delta_at ds i > 2 * delta_at ds (Suc i))"

text \<open>
  The C++ product \<^verbatim>\<open>next_entry.count * 2\<close> is defined only when it does not overflow a
  32-bit signed integer; \<open>doubling_defined\<close> says so for every delta of a list.
\<close>

definition doubling_defined :: "'v Entry list \<Rightarrow> bool" where
  "doubling_defined ds =
     list_all (\<lambda>e. - (2 ^ 30) \<le> sint (count_of e) \<and> sint (count_of e) < 2 ^ 30) ds"


text \<open>
  The invariant of \<^verbatim>\<open>std::map\<close> on the association list: keys strictly ascending (so
  each key occurs once).
\<close>

definition histogram_ok :: "('v::linorder \<times> nat) list \<Rightarrow> bool" where
  "histogram_ok h = sorted_wrt (<) (map fst h)"

text \<open>The score of a class: 0 when the histogram does not track it.\<close>

definition score_of :: "('v \<times> nat) list \<Rightarrow> 'v \<Rightarrow> nat" where
  "score_of h v = (case map_of h v of None \<Rightarrow> 0 | Some n \<Rightarrow> n)"

section \<open>Example snapshots\<close>

text \<open>
  Three allocation classes and the snapshots of the specification's end-to-end example,
  in descending order of count, with capacity 5.
\<close>

definition class_A :: nat where "class_A = 1"
definition class_B :: nat where "class_B = 2"
definition class_C :: nat where "class_C = 3"

definition snapshot :: "(nat \<times> 32 word) list \<Rightarrow> nat RankedList" where
  "snapshot xs = \<lparr>max_size = 5, entries = map (\<lambda>(v, c). \<lparr>value_of = v, count_of = c\<rparr>) xs\<rparr>"

definition cycle1 :: "nat RankedList" where
  "cycle1 = snapshot [(class_A, 100), (class_B, 90), (class_C, 10)]"

definition cycle2 :: "nat RankedList" where
  "cycle2 = snapshot [(class_A, 200), (class_B, 95), (class_C, 11)]"

text \<open>
  A third snapshot that continues the growth of class A, one in which class B has
  shrunk, and a pair in which class B appears only in the second snapshot.
\<close>

definition cycle3 :: "nat RankedList" where
  "cycle3 = snapshot [(class_A, 300), (class_B, 100), (class_C, 12)]"


definition only_A :: "nat RankedList" where
  "only_A = snapshot [(class_A, 100)]"

definition A_and_B :: "nat RankedList" where
  "A_and_B = snapshot [(class_A, 150), (class_B, 40)]"

text \<open>
  An analyzer with capacity 1 and threshold 1 whose histogram tracks three classes, and
  a list of deltas whose first three classes lie before the drop. No sequence of calls
  of \<^verbatim>\<open>AddSample\<close> leads from the constructor to such a state; it serves to run the
  loops of \<^verbatim>\<open>AnalyzeDeltas\<close> on a histogram that exceeds the capacity.
\<close>

definition crowded :: "nat LeakAnalyzer" where
  "crowded = (LeakAnalyzer_new 1 1)
     \<lparr>suspected_histogram := [(class_A, 1), (class_B, 1), (class_C, 1)]\<rparr>"

definition three_before_drop :: "nat RankedList" where
  "three_before_drop = snapshot [(class_A, 100), (class_B, 90), (class_C, 80), (4, 10)]"





text \<open>
  Deltas of \<open>2 ^ 30\<close> and beyond: classes A and B both growing from 0 to \<open>2 ^ 30\<close>,
  and class A growing by 10 while class B falls from \<open>2 ^ 30 + 1\<close> to 0.
\<close>

definition zeros :: "nat RankedList" where
  "zeros = snapshot [(class_A, 0), (class_B, 0)]"

definition both_grow :: "nat RankedList" where
  "both_grow = snapshot [(class_A, 1073741824), (class_B, 1073741824)]"

definition before_fall :: "nat RankedList" where
  "before_fall = snapshot [(class_B, 1073741825), (class_A, 0)]"

definition after_fall :: "nat RankedList" where
  "after_fall = snapshot [(class_A, 10), (class_B, 0)]"

section \<open>The list of deltas\<close>

lemma previous_count_found:
  "fst (previous_count es v c) \<longleftrightarrow> v \<in> value_of ` set es"
  by (induction es) auto

lemma length_insert_ranked: "length (insert_ranked e xs) = Suc (length xs)"
  by (induction xs) auto

lemma mset_insert_ranked: "mset (insert_ranked e xs) = add_mset e (mset xs)"
  by (induction xs) auto

lemma max_size_Add: "max_size (Add rl v c) = max_size rl"
  by (simp add: Add_def)

lemma length_entries_Add:
  "length (entries (Add rl v c)) = min (max_size rl) (Suc (length (entries rl)))"
  by (simp add: Add_def length_insert_ranked)

lemma max_size_add_delta: "max_size (add_delta s rl e) = max_size rl"
  by (simp add: add_delta_def max_size_Add split: prod.splits)

lemma max_size_foldl_add_delta: "max_size (foldl (add_delta s) rl es) = max_size rl"
  by (induction es arbitrary: rl) (simp_all add: max_size_add_delta)

lemma length_entries_add_delta:
  "length (entries rl) \<le> max_size rl \<Longrightarrow> length (entries (add_delta s rl e)) \<le> max_size rl"
  by (simp add: add_delta_def length_entries_Add split: prod.splits)

lemma length_entries_foldl_add_delta:
  "length (entries rl) \<le> max_size rl \<Longrightarrow>
   length (entries (foldl (add_delta s) rl es)) \<le> max_size rl"
proof (induction es arbitrary: rl)
  case Nil
  then show ?case by simp
next
  case (Cons e es)
  have "length (entries (add_delta s rl e)) \<le> max_size (add_delta s rl e)"
    using Cons.prems by (simp add: length_entries_add_delta max_size_add_delta)
  from Cons.IH [OF this] show ?case by (simp add: max_size_add_delta)
qed

lemma length_compute_deltas: "length (entries (compute_deltas s rl)) \<le> ranking_size s"
  using length_entries_foldl_add_delta [of "RankedList_new (ranking_size s)" s "entries rl"]
  by (simp add: compute_deltas_def RankedList_new_def)

lemma mset_foldl_add_delta:
  "length (entries rl) + length es \<le> max_size rl \<Longrightarrow>
   mset (entries (foldl (add_delta s) rl es)) =
     mset (entries rl) +
     mset (map (\<lambda>e. \<lparr>value_of = value_of e,
                     count_of = count_of e - snd (GetPreviousCountForValue s (value_of e) 0)\<rparr>)
            (filter (\<lambda>e. fst (GetPreviousCountForValue s (value_of e) 0)) es))"
proof (induction es arbitrary: rl)
  case Nil
  then show ?case by simp
next
  case (Cons e es)
  let ?rl = "add_delta s rl e"
  have len: "length (entries ?rl) \<le> Suc (length (entries rl))"
    by (simp add: add_delta_def length_entries_Add split: prod.splits)
  have step: "mset (entries ?rl) =
      (if fst (GetPreviousCountForValue s (value_of e) 0)
       then add_mset \<lparr>value_of = value_of e,
              count_of = count_of e - snd (GetPreviousCountForValue s (value_of e) 0)\<rparr>
            (mset (entries rl))
       else mset (entries rl))"
    using Cons.prems
    by (simp add: add_delta_def Add_def length_insert_ranked mset_insert_ranked
        split: prod.splits)
  have "length (entries ?rl) + length es \<le> max_size ?rl"
    using Cons.prems len by (simp add: max_size_add_delta)
  from Cons.IH [OF this] show ?case
    by (simp add: step)
qed

lemma mset_compute_deltas:
  "length (entries rl) \<le> ranking_size s \<Longrightarrow>
   mset (entries (compute_deltas s rl)) =
     mset (map (\<lambda>e. \<lparr>value_of = value_of e,
                     count_of = count_of e - snd (GetPreviousCountForValue s (value_of e) 0)\<rparr>)
            (filter (\<lambda>e. fst (GetPreviousCountForValue s (value_of e) 0)) (entries rl)))"
  using mset_foldl_add_delta [of "RankedList_new (ranking_size s)" "entries rl" s]
  by (simp add: compute_deltas_def RankedList_new_def)

lemma compute_deltas_first:
  "entries (prev_ranked_entries s) = [] \<Longrightarrow> compute_deltas s rl = RankedList_new (ranking_size s)"
proof -
  assume e: "entries (prev_ranked_entries s) = []"
  have "foldl (add_delta s) r es = r" for r es
    by (induction es) (simp_all add: add_delta_def GetPreviousCountForValue_def e)
  then show ?thesis by (simp add: compute_deltas_def)
qed


section \<open>Cliff detector\<close>

lemma sint_double:
  fixes b :: "32 word"
  assumes "- (2 ^ 30) \<le> sint b" "sint b < 2 ^ 30"
  shows "sint (b * 2) = 2 * sint b"
proof -
  have "sint (b * 2) = signed_take_bit 31 (sint b * 2)"
    by (simp add: sint_word_ariths)
  also have "\<dots> = sint b * 2"
    using assms by (intro signed_take_bit_int_eq_self) auto
  finally show ?thesis by simp
qed

lemma first_drop_Some:
  "first_drop ds = Some p \<Longrightarrow>
   0 < p \<and> p < length ds \<and> count_of (ds ! p) * 2 <s count_of (ds ! (p - 1)) \<and>
   (\<forall>j. Suc j < p \<longrightarrow> \<not> count_of (ds ! Suc j) * 2 <s count_of (ds ! j))"
proof (induction ds arbitrary: p rule: first_drop.induct)
  case (1 entry next_entry rest)
  show ?case
  proof (cases "count_of next_entry * 2 <s count_of entry")
    case True
    with "1.prems" show ?thesis by simp
  next
    case False
    with "1.prems" obtain q where q: "first_drop (next_entry # rest) = Some q" "p = Suc q"
      by auto
    from "1.IH" [OF False q(1)]
    have ih: "0 < q" "q < length (next_entry # rest)"
      "count_of ((next_entry # rest) ! q) * 2 <s count_of ((next_entry # rest) ! (q - 1))"
      "\<forall>j. Suc j < q \<longrightarrow> \<not> count_of ((next_entry # rest) ! Suc j) * 2 <s count_of ((next_entry # rest) ! j)"
      by auto
    have "\<not> count_of ((entry # next_entry # rest) ! Suc j) * 2 <s count_of ((entry # next_entry # rest) ! j)"
      if "Suc j < p" for j
    proof (cases j)
      case 0
      then show ?thesis using False by simp
    next
      case (Suc k)
      with that q(2) have "Suc k < q" by simp
      with ih(4) Suc show ?thesis by simp
    qed
    moreover have "count_of ((entry # next_entry # rest) ! p) * 2 <s count_of ((entry # next_entry # rest) ! (p - 1))"
      using ih(1,3) q(2) by (cases q) auto
    ultimately show ?thesis using ih(1,2) q(2) by auto
  qed
qed simp_all

lemma first_drop_None:
  "first_drop ds = None \<Longrightarrow> Suc j < length ds \<Longrightarrow> \<not> count_of (ds ! Suc j) * 2 <s count_of (ds ! j)"
proof (induction ds arbitrary: j rule: first_drop.induct)
  case (1 entry next_entry rest)
  then show ?case by (cases j) (auto split: if_splits)
qed simp_all

lemma drop_position_bound: "drop_position ds = Some p \<Longrightarrow> 0 < p \<and> p < length ds"
  by (auto simp: drop_position_def split: if_splits list.splits dest: first_drop_Some)

lemma set_fold_insort_insert: "set (fold insort_insert xs ys) = set xs \<union> set ys"
  by (induction xs arbitrary: ys) (auto simp: set_insort_insert)

lemma sorted_fold_insort_insert: "sorted ys \<Longrightarrow> sorted (fold insort_insert xs ys)"
  by (induction xs arbitrary: ys) (auto simp: sorted_insort_insert)

lemma distinct_fold_insort_insert: "distinct ys \<Longrightarrow> distinct (fold insort_insert xs ys)"
  by (induction xs arbitrary: ys) (auto simp: distinct_insort_insert)

lemma length_fold_insort_insert:
  "length (fold insort_insert xs ys) \<le> length xs + length ys"
proof (induction xs arbitrary: ys)
  case Nil
  then show ?case by simp
next
  case (Cons x xs)
  have "length (insort_insert x ys) \<le> Suc (length ys)"
    by (simp add: insort_insert_key_def)
  with Cons [of "insort_insert x ys"] show ?case by simp
qed

lemma distinct_current_suspects: "distinct (current_suspects rl)"
  by (simp add: current_suspects_def distinct_fold_insort_insert split: option.splits)

lemma sorted_current_suspects: "sorted (current_suspects rl)"
  by (simp add: current_suspects_def sorted_fold_insort_insert split: option.splits)

lemma length_current_suspects: "length (current_suspects rl) \<le> length (entries rl) - 1"
proof (cases "drop_position (entries rl)")
  case None
  then show ?thesis by (simp add: current_suspects_def)
next
  case (Some p)
  from drop_position_bound [OF Some] have "p \<le> length (entries rl) - 1" by arith
  moreover have "length (current_suspects rl) \<le> length (map value_of (take p (entries rl))) + length ([]::'a list)"
    unfolding current_suspects_def Some option.case by (rule length_fold_insort_insert)
  ultimately show ?thesis by simp
qed

lemma cliff_at_word:
  assumes "doubling_defined ds" "Suc i < length ds"
  shows "count_of (ds ! Suc i) * 2 <s count_of (ds ! i) \<longleftrightarrow> cliff_at ds i"
proof -
  have "ds ! Suc i \<in> set ds" using assms(2) by simp
  with assms(1) have "- (2 ^ 30) \<le> sint (count_of (ds ! Suc i))" "sint (count_of (ds ! Suc i)) < 2 ^ 30"
    by (auto simp: doubling_defined_def list_all_iff)
  then have "sint (count_of (ds ! Suc i) * 2) = 2 * sint (count_of (ds ! Suc i))"
    by (rule sint_double)
  then show ?thesis using assms(2) by (simp add: cliff_at_def delta_at_def word_sless_alt)
qed


lemma drop_position_cliff:
  assumes dd: "doubling_defined ds"
    and pos: "0 < delta_at ds 0"
    and cl: "cliff_at ds i"
    and least: "\<forall>j<i. \<not> cliff_at ds j"
  shows "drop_position ds = Some (Suc i)"
proof -
  from cl have len: "Suc i < length ds" by (simp add: cliff_at_def)
  then obtain entry rest where ds: "ds = entry # rest" by (cases ds) auto
  from pos ds have "0 <s count_of entry" by (simp add: delta_at_def word_sless_alt)
  with len ds have dp: "drop_position ds = first_drop ds"
    by (simp add: drop_position_def)
  show ?thesis
  proof (cases "first_drop ds")
    case None
    from first_drop_None [OF None len] cliff_at_word [OF dd len] cl show ?thesis by simp
  next
    case (Some p)
    from first_drop_Some [OF Some]
    have p: "0 < p" "p < length ds" "count_of (ds ! p) * 2 <s count_of (ds ! (p - 1))"
      "\<forall>j. Suc j < p \<longrightarrow> \<not> count_of (ds ! Suc j) * 2 <s count_of (ds ! j)"
      by auto
    from p(1) obtain q where q: "p = Suc q" by (cases p) auto
    with p(2,3) cliff_at_word [OF dd, of q] have cq: "cliff_at ds q" by simp
    have "\<not> Suc i < p"
      using p(4) cliff_at_word [OF dd len] cl by blast
    moreover have "\<not> q < i" using least cq by blast
    ultimately have "p = Suc i" using q by simp
    with dp Some show ?thesis by simp
  qed
qed

lemma drop_position_None_if:
  "length ds < 2 \<or> delta_at ds 0 \<le> 0 \<or> (doubling_defined ds \<and> (\<forall>i. \<not> cliff_at ds i))
   \<Longrightarrow> drop_position ds = None"
proof (cases "drop_position ds")
  case None
  then show ?thesis by simp
next
  case (Some p)
  assume a: "length ds < 2 \<or> delta_at ds 0 \<le> 0 \<or> (doubling_defined ds \<and> (\<forall>i. \<not> cliff_at ds i))"
  from Some obtain entry rest where ds: "ds = entry # rest" "length ds > 1" "0 <s count_of entry"
    and fd: "first_drop ds = Some p"
    by (auto simp: drop_position_def split: if_splits list.splits)
  from first_drop_Some [OF fd]
  have p: "0 < p" "p < length ds" "count_of (ds ! p) * 2 <s count_of (ds ! (p - 1))" by auto
  from p(1) obtain q where q: "p = Suc q" by (cases p) auto
  have "cliff_at ds q" if "doubling_defined ds"
    using cliff_at_word [OF that, of q] p(2,3) q by simp
  moreover have "0 < delta_at ds 0" using ds by (simp add: delta_at_def word_sless_alt)
  ultimately show ?thesis using a ds(2) by auto
qed

section \<open>Suspicion tracker\<close>

lemma map_of_erase_unsuspected:
  "map_of (erase_unsuspected cs h) k = (if k \<in> set cs then map_of h k else None)"
  by (induction h) (auto simp: erase_unsuspected_def)

lemma keys_erase_unsuspected: "fst ` set (erase_unsuspected cs h) = fst ` set h \<inter> set cs"
  by (auto simp: erase_unsuspected_def)

lemma length_erase_unsuspected: "length (erase_unsuspected cs h) \<le> length h"
  by (simp add: erase_unsuspected_def)

lemma histogram_ok_erase: "histogram_ok h \<Longrightarrow> histogram_ok (erase_unsuspected cs h)"
  unfolding histogram_ok_def erase_unsuspected_def
  by (induction h) (auto)

lemma map_of_histogram_put: "map_of (histogram_put v n h) = (map_of h)(v \<mapsto> n)"
  by (induction h) (auto simp: fun_eq_iff)

lemma keys_histogram_put: "fst ` set (histogram_put v n h) = insert v (fst ` set h)"
  by (induction v n h rule: histogram_put.induct) (auto split: if_splits)

lemma histogram_ok_put: "histogram_ok h \<Longrightarrow> histogram_ok (histogram_put v n h)"
proof (induction v n h rule: histogram_put.induct)
  case (1 v n)
  then show ?case by (simp add: histogram_ok_def)
next
  case (2 v n k m h)
  have tl: "histogram_ok h" using "2.prems" by (simp add: histogram_ok_def)
  have above: "\<forall>x\<in>fst ` set h. k < x" using "2.prems" by (simp add: histogram_ok_def)
  show ?case
  proof (cases "v < k")
    case True
    with above have "\<forall>x\<in>fst ` set h. v < x" by auto
    with True "2.prems" show ?thesis by (simp add: histogram_ok_def)
  next
    case False
    show ?thesis
    proof (cases "v = k")
      case True
      with "2.prems" show ?thesis by (simp add: histogram_ok_def)
    next
      case ne: False
      with False have "k < v" by simp
      with above have "\<forall>x\<in>fst ` set (histogram_put v n h). k < x"
        by (simp add: keys_histogram_put)
      moreover have "histogram_ok (histogram_put v n h)"
        using "2.IH" False ne tl by simp
      ultimately show ?thesis using False ne by (simp add: histogram_ok_def)
    qed
  qed
qed

lemma length_histogram_put:
  "histogram_ok h \<Longrightarrow>
   length (histogram_put v n h) = (if v \<in> fst ` set h then length h else Suc (length h))"
proof (induction v n h rule: histogram_put.induct)
  case (1 v n)
  then show ?case by simp
next
  case (2 v n k m h)
  have tl: "histogram_ok h" using "2.prems" by (simp add: histogram_ok_def)
  have above: "\<forall>x\<in>fst ` set h. k < x" using "2.prems" by (simp add: histogram_ok_def)
  show ?case
  proof (cases "v < k")
    case True
    with above have "v \<notin> fst ` set h" by auto
    with True show ?thesis by simp
  next
    case False
    show ?thesis
    proof (cases "v = k")
      case True
      then show ?thesis by simp
    next
      case ne: False
      with "2.IH" False tl show ?thesis by simp
    qed
  qed
qed

lemma histogram_ok_distinct: "histogram_ok h \<Longrightarrow> distinct (map fst h)"
  unfolding histogram_ok_def by (simp add: strict_sorted_iff)

lemma map_of_None_iff: "map_of h v = None \<longleftrightarrow> v \<notin> fst ` set h"
  by (simp add: map_of_eq_None_iff)

text \<open>One step of the second loop.\<close>

lemma increase_score_cases:
  "increase_score rs v h =
     (if v \<in> fst ` set h then histogram_put v (Suc (score_of h v)) h
      else if length h < rs then histogram_put v 1 h else h)"
proof (cases "map_of h v")
  case None
  then have "v \<notin> fst ` set h" by (simp add: map_of_None_iff)
  with None show ?thesis
    by (simp add: increase_score_def kSuspicionScoreIncrease_def)
next
  case (Some n)
  then have "v \<in> fst ` set h" using map_of_None_iff [of h v] by simp
  with Some show ?thesis
    by (simp add: increase_score_def kSuspicionScoreIncrease_def score_of_def)
qed

lemma histogram_ok_increase_score: "histogram_ok h \<Longrightarrow> histogram_ok (increase_score rs v h)"
  by (simp add: increase_score_cases histogram_ok_put)

lemma length_increase_score:
  "histogram_ok h \<Longrightarrow> length h \<le> rs \<Longrightarrow> length (increase_score rs v h) \<le> rs"
  by (simp add: increase_score_cases length_histogram_put)

lemma keys_increase_score: "fst ` set (increase_score rs v h) \<subseteq> insert v (fst ` set h)"
  by (auto simp: increase_score_cases keys_histogram_put)

lemma histogram_ok_increase_scores: "histogram_ok h \<Longrightarrow> histogram_ok (increase_scores rs cs h)"
  unfolding increase_scores_def
  by (induction cs arbitrary: h) (simp_all add: histogram_ok_increase_score)

lemma length_increase_scores:
  "histogram_ok h \<Longrightarrow> length h \<le> rs \<Longrightarrow> length (increase_scores rs cs h) \<le> rs"
  unfolding increase_scores_def
  by (induction cs arbitrary: h)
    (simp_all add: histogram_ok_increase_score length_increase_score)

lemma keys_increase_scores: "fst ` set (increase_scores rs cs h) \<subseteq> set cs \<union> fst ` set h"
  unfolding increase_scores_def
proof (induction cs arbitrary: h)
  case Nil
  then show ?case by simp
next
  case (Cons v cs)
  from Cons [of "increase_score rs v h"] keys_increase_score [of rs v h]
  show ?case by auto
qed


text \<open>The second loop, for a histogram that may be full.\<close>

lemma map_of_increase_scores:
  assumes "histogram_ok h" "distinct cs"
  shows "map_of (increase_scores rs cs h) k =
     (case map_of h k of
        Some n \<Rightarrow> Some (if k \<in> set cs then n + 1 else n)
      | None \<Rightarrow>
          if k \<in> set (take (rs - length h) (filter (\<lambda>v. map_of h v = None) cs))
          then Some 1 else None)"
  using assms unfolding increase_scores_def
proof (induction cs arbitrary: h)
  case Nil
  then show ?case by (simp split: option.splits)
next
  case (Cons v cs)
  let ?h1 = "increase_score rs v h"
  have ok1: "histogram_ok ?h1" using Cons.prems(1) by (rule histogram_ok_increase_score)
  have dist: "distinct cs" and fresh: "v \<notin> set cs" using Cons.prems(2) by auto
  note IH = Cons.IH [OF ok1 dist]
  have same_filter: "filter (\<lambda>u. (map_of h1 u = None)) cs = filter (\<lambda>u. map_of h u = None) cs"
    if "\<And>u. u \<noteq> v \<Longrightarrow> map_of h1 u = map_of h u" for h1 :: "('a \<times> nat) list"
  proof (intro filter_cong refl)
    fix u assume "u \<in> set cs"
    with fresh have "u \<noteq> v" by auto
    then show "(map_of h1 u = None) = (map_of h u = None)" by (simp add: that)
  qed
  show ?case
  proof (cases "v \<in> fst ` set h")
    case True
    then obtain n0 where n0: "map_of h v = Some n0"
      using map_of_None_iff [of h v] by auto
    have h1: "?h1 = histogram_put v (Suc n0) h"
      using True n0 by (simp add: increase_score_cases score_of_def)
    have m1: "map_of ?h1 = (map_of h)(v \<mapsto> Suc n0)"
      by (simp add: h1 map_of_histogram_put)
    have l1: "length ?h1 = length h"
      using True Cons.prems(1) by (simp add: h1 length_histogram_put)
    have f1: "filter (\<lambda>u. map_of ?h1 u = None) cs = filter (\<lambda>u. map_of h u = None) cs"
      by (rule same_filter) (simp add: m1)
    note IH' = IH [unfolded f1 l1]
    show ?thesis
    proof (cases "k = v")
      case True
      with IH' fresh n0 show ?thesis by (simp add: m1)
    next
      case False
      with IH' n0 show ?thesis by (simp add: m1 split: option.splits)
    qed
  next
    case absent: False
    then have none: "map_of h v = None" by (simp add: map_of_None_iff)
    show ?thesis
    proof (cases "length h < rs")
      case True
      have h1: "?h1 = histogram_put v 1 h"
        using absent True by (simp add: increase_score_cases)
      have m1: "map_of ?h1 = (map_of h)(v \<mapsto> 1)"
        by (simp add: h1 map_of_histogram_put)
      have l1: "length ?h1 = Suc (length h)"
        using absent Cons.prems(1) by (simp add: h1 length_histogram_put)
      have f1: "filter (\<lambda>u. map_of ?h1 u = None) cs = filter (\<lambda>u. map_of h u = None) cs"
        by (rule same_filter) (simp add: m1)
      from True obtain d where d: "rs - length h = Suc d" "rs - Suc (length h) = d"
        by (cases "rs - length h") auto
      note IH' = IH [unfolded f1 l1 d(2)]
      show ?thesis
      proof (cases "k = v")
        case True
        with IH' fresh none show ?thesis by (simp add: m1 d(1))
      next
        case False
        with IH' none show ?thesis by (simp add: m1 d(1) split: option.splits)
      qed
    next
      case False
      have h1: "?h1 = h" using absent False by (simp add: increase_score_cases)
      from False have z: "rs - length h = 0" by simp
      show ?thesis
      proof (cases "k = v")
        case True
        with IH none show ?thesis by (simp add: h1 z)
      next
        case False
        with IH none show ?thesis by (simp add: h1 z split: option.splits)
      qed
    qed
  qed
qed

text \<open>The third loop.\<close>

lemma collect_leaks_acc:
  "collect_leaks rs th h acc =
     (if length acc > rs then acc
      else acc @ take (Suc rs - length acc) (map fst (filter (\<lambda>(v, n). th \<le> n) h)))"
proof (induction h arbitrary: acc)
  case Nil
  then show ?case by simp
next
  case (Cons x h)
  obtain v n where x: "x = (v, n)" by (cases x)
  show ?case
  proof (cases "length acc > rs")
    case True
    then show ?thesis by (simp add: x)
  next
    case False
    then have d: "Suc rs - length acc = Suc (rs - length acc)"
      by (simp add: Suc_diff_le)
    show ?thesis
      using False Cons.IH [of "acc @ [v]"] Cons.IH [of acc]
      by (simp add: x d)
  qed
qed

lemma collect_leaks_take:
  "collect_leaks rs th h [] = take (Suc rs) (map fst (filter (\<lambda>(v, n). th \<le> n) h))"
  by (simp add: collect_leaks_acc)


section \<open>One cycle\<close>

lemma AnalyzeDeltas_fields:
  "ranking_size (AnalyzeDeltas s ds) = ranking_size s"
  "score_threshold (AnalyzeDeltas s ds) = score_threshold s"
  "suspected_histogram (AnalyzeDeltas s ds) =
     increase_scores (ranking_size s) (current_suspects ds)
       (erase_unsuspected (current_suspects ds) (suspected_histogram s))"
  "suspected_leaks (AnalyzeDeltas s ds) =
     collect_leaks (ranking_size s) (score_threshold s)
       (suspected_histogram (AnalyzeDeltas s ds)) []"
  by (simp_all add: AnalyzeDeltas_def Let_def)

lemma AddSample_AnalyzeDeltas:
  "AddSample s x = AnalyzeDeltas (save_entries s x) (cycle_deltas s x)"
  by (simp add: AddSample_def cycle_deltas_def Let_def)

lemma save_entries_fields:
  "ranking_size (save_entries s x) = ranking_size s"
  "score_threshold (save_entries s x) = score_threshold s"
  "suspected_histogram (save_entries s x) = suspected_histogram s"
  "prev_ranked_entries (save_entries s x) = ranked_entries s"
  "ranked_entries (save_entries s x) = x"
  by (simp_all add: save_entries_def)

lemma AddSample_fields:
  "ranking_size (AddSample s x) = ranking_size s"
  "score_threshold (AddSample s x) = score_threshold s"
  "ranked_entries (AddSample s x) = x"
  "prev_ranked_entries (AddSample s x) = ranked_entries s"
  "suspected_histogram (AddSample s x) =
     increase_scores (ranking_size s) (cycle_suspects s x)
       (erase_unsuspected (cycle_suspects s x) (suspected_histogram s))"
  "suspected_leaks (AddSample s x) =
     collect_leaks (ranking_size s) (score_threshold s) (suspected_histogram (AddSample s x)) []"
  by (simp_all add: AddSample_def AnalyzeDeltas_def save_entries_def cycle_suspects_def
      cycle_deltas_def Let_def)

lemma length_cycle_suspects: "length (cycle_suspects s x) \<le> ranking_size s"
proof -
  have "length (cycle_suspects s x) \<le> length (entries (cycle_deltas s x)) - 1"
    unfolding cycle_suspects_def by (rule length_current_suspects)
  also have "\<dots> \<le> length (entries (cycle_deltas s x))" by simp
  also have "\<dots> \<le> ranking_size (save_entries s x)"
    unfolding cycle_deltas_def by (rule length_compute_deltas)
  finally show ?thesis by (simp add: save_entries_fields)
qed

lemma distinct_cycle_suspects: "distinct (cycle_suspects s x)"
  by (simp add: cycle_suspects_def distinct_current_suspects)

text \<open>
  When the current suspects fit into the histogram, the two loops leave exactly the
  current suspects, each with its old score plus one.
\<close>

lemma length_erased_plus_new:
  assumes ok: "histogram_ok h" and dist: "distinct cs"
  defines "h0 \<equiv> erase_unsuspected cs h"
  shows "length h0 + length (filter (\<lambda>v. map_of h0 v = None) cs) = length cs"
proof -
  have ok0: "histogram_ok h0" unfolding h0_def using ok by (rule histogram_ok_erase)
  have keys: "fst ` set h0 = {v. map_of h0 v \<noteq> None} \<inter> set cs"
    using map_of_None_iff [of h0] by (auto simp: h0_def keys_erase_unsuspected)
  have "length h0 = card (fst ` set h0)"
    using histogram_ok_distinct [OF ok0] distinct_card [of "map fst h0"] by simp
  also have "\<dots> = length (filter (\<lambda>v. map_of h0 v \<noteq> None) cs)"
    using dist by (simp add: keys distinct_length_filter)
  finally have "length h0 = length (filter (\<lambda>v. map_of h0 v \<noteq> None) cs)" .
  moreover have "length (filter (\<lambda>v. map_of h0 v \<noteq> None) cs)
      + length (filter (\<lambda>v. \<not> map_of h0 v \<noteq> None) cs) = length cs"
    by (rule sum_length_filter_compl)
  ultimately show ?thesis by simp
qed

lemma map_of_cycle:
  assumes ok: "histogram_ok h" and dist: "distinct cs" and fits: "length cs \<le> rs"
  shows "map_of (increase_scores rs cs (erase_unsuspected cs h)) k =
           (if k \<in> set cs then Some (Suc (score_of h k)) else None)"
proof -
  let ?h0 = "erase_unsuspected cs h"
  let ?news = "filter (\<lambda>v. map_of ?h0 v = None) cs"
  have ok0: "histogram_ok ?h0" using ok by (rule histogram_ok_erase)
  have "length ?news \<le> rs - length ?h0"
    using length_erased_plus_new [OF ok dist] fits by simp
  then have all: "take (rs - length ?h0) ?news = ?news" by simp
  show ?thesis
    unfolding map_of_increase_scores [OF ok0 dist] all
    by (simp add: map_of_erase_unsuspected score_of_def split: option.splits)
qed

lemma histogram_ok_AnalyzeDeltas:
  "histogram_ok (suspected_histogram s) \<Longrightarrow>
   histogram_ok (suspected_histogram (AnalyzeDeltas s ds))"
  by (simp add: AnalyzeDeltas_fields histogram_ok_increase_scores histogram_ok_erase)

lemma histogram_ok_AddSample:
  "histogram_ok (suspected_histogram s) \<Longrightarrow> histogram_ok (suspected_histogram (AddSample s x))"
  by (simp add: AddSample_fields histogram_ok_increase_scores histogram_ok_erase)

lemma map_of_AddSample:
  assumes "histogram_ok (suspected_histogram s)"
  shows "map_of (suspected_histogram (AddSample s x)) k =
           (if k \<in> set (cycle_suspects s x) then Some (Suc (score_of (suspected_histogram s) k))
            else None)"
  unfolding AddSample_fields
  using assms distinct_cycle_suspects length_cycle_suspects by (rule map_of_cycle)

lemma length_histogram_AddSample:
  assumes "histogram_ok (suspected_histogram s)"
  shows "length (suspected_histogram (AddSample s x)) \<le> length (cycle_suspects s x)"
proof -
  let ?h = "suspected_histogram (AddSample s x)"
  have ok: "histogram_ok ?h" using assms by (rule histogram_ok_AddSample)
  have "fst ` set ?h \<subseteq> set (cycle_suspects s x)"
  proof
    fix k assume "k \<in> fst ` set ?h"
    then have "map_of ?h k \<noteq> None" by (simp add: map_of_None_iff)
    then show "k \<in> set (cycle_suspects s x)"
      by (simp add: map_of_AddSample [OF assms] split: if_splits)
  qed
  then have "card (fst ` set ?h) \<le> card (set (cycle_suspects s x))"
    by (intro card_mono) auto
  moreover have "card (fst ` set ?h) = length ?h"
    using histogram_ok_distinct [OF ok] distinct_card [of "map fst ?h"] by simp
  moreover have "card (set (cycle_suspects s x)) = length (cycle_suspects s x)"
    using distinct_cycle_suspects by (rule distinct_card)
  ultimately show ?thesis by simp
qed

lemma leaks_iff:
  assumes ok: "histogram_ok h" and fits: "length h \<le> Suc rs"
  shows "v \<in> set (collect_leaks rs th h []) \<longleftrightarrow> (\<exists>n. map_of h v = Some n \<and> th \<le> n)"
proof -
  have "collect_leaks rs th h [] = map fst (filter (\<lambda>(v, n). th \<le> n) h)"
    using fits le_trans [OF length_filter_le fits] by (simp add: collect_leaks_take)
  moreover have "map_of h v = Some n \<longleftrightarrow> (v, n) \<in> set h" for n
    using histogram_ok_distinct [OF ok] by (rule map_of_eq_Some_iff)
  ultimately show ?thesis by force
qed

lemma leaks_AddSample:
  assumes ok: "histogram_ok (suspected_histogram s)"
  shows "v \<in> set (suspected_leaks (AddSample s x)) \<longleftrightarrow>
           v \<in> set (cycle_suspects s x) \<and> score_threshold s \<le> Suc (score_of (suspected_histogram s) v)"
proof -
  let ?h = "suspected_histogram (AddSample s x)"
  have "length ?h \<le> Suc (ranking_size s)"
    using length_histogram_AddSample [OF ok, of x] length_cycle_suspects [of s x] by simp
  from leaks_iff [OF histogram_ok_AddSample [OF ok] this]
  show ?thesis
    by (simp add: AddSample_fields(6) map_of_AddSample [OF ok])
qed

lemma GetPreviousCountForValue_save:
  "GetPreviousCountForValue (save_entries s x) v c = previous_count (entries (ranked_entries s)) v c"
  by (simp add: GetPreviousCountForValue_def save_entries_def)

lemma mset_cycle_deltas:
  assumes "length (entries x) \<le> ranking_size s"
  shows "mset (entries (cycle_deltas s x)) =
     mset (map (\<lambda>e. \<lparr>value_of = value_of e,
                     count_of = count_of e - snd (previous_count (entries (ranked_entries s)) (value_of e) 0)\<rparr>)
            (filter (\<lambda>e. value_of e \<in> value_of ` set (entries (ranked_entries s))) (entries x)))"
proof -
  have "length (entries x) \<le> ranking_size (save_entries s x)"
    using assms by (simp add: save_entries_fields)
  from mset_compute_deltas [OF this] show ?thesis
    by (simp add: cycle_deltas_def GetPreviousCountForValue_save previous_count_found)
qed


section \<open>Runs\<close>

lemma run_Nil: "run s [] = s"
  by (simp add: run_def)

lemma run_Cons: "run s (x # xs) = run (AddSample s x) xs"
  by (simp add: run_def)

lemma run_snoc: "run s (xs @ [x]) = AddSample (run s xs) x"
  by (simp add: run_def)

lemma run_take_Suc: "j < length xs \<Longrightarrow> run s (take (Suc j) xs) = AddSample (run s (take j xs)) (xs ! j)"
  by (simp add: take_Suc_conv_app_nth run_snoc)

lemma run_fields:
  "ranking_size (run s xs) = ranking_size s"
  "score_threshold (run s xs) = score_threshold s"
  by (induction xs arbitrary: s) (simp_all add: run_Nil run_Cons AddSample_fields)

lemma histogram_ok_run:
  "histogram_ok (suspected_histogram s) \<Longrightarrow> histogram_ok (suspected_histogram (run s xs))"
  by (induction xs arbitrary: s) (simp_all add: run_Nil run_Cons histogram_ok_AddSample)

lemma histogram_ok_new: "histogram_ok (suspected_histogram (LeakAnalyzer_new rs th))"
  by (simp add: LeakAnalyzer_new_def histogram_ok_def)

lemma length_histogram_run:
  assumes "histogram_ok (suspected_histogram s)"
    and "length (suspected_histogram s) \<le> ranking_size s"
  shows "length (suspected_histogram (run s xs)) \<le> ranking_size s"
  using assms
proof (induction xs arbitrary: s)
  case Nil
  then show ?case by (simp add: run_Nil)
next
  case (Cons x xs)
  have "length (suspected_histogram (AddSample s x)) \<le> ranking_size (AddSample s x)"
    using length_histogram_AddSample [OF Cons.prems(1), of x] length_cycle_suspects [of s x]
    by (simp add: AddSample_fields(1))
  from Cons.IH [OF histogram_ok_AddSample [OF Cons.prems(1)] this]
  show ?case by (simp add: run_Cons AddSample_fields(1))
qed

lemma score_of_streak:
  assumes ok: "histogram_ok (suspected_histogram s)"
    and streak: "\<forall>j<n. v \<in> set (cycle_suspects (run s (take j xs)) (xs ! j))"
    and n: "n \<le> length xs"
  shows "score_of (suspected_histogram (run s (take n xs))) v = score_of (suspected_histogram s) v + n"
  using streak n
proof (induction n)
  case 0
  then show ?case by (simp add: run_Nil)
next
  case (Suc n)
  let ?t = "run s (take n xs)"
  have okt: "histogram_ok (suspected_histogram ?t)" using ok by (rule histogram_ok_run)
  have sus: "v \<in> set (cycle_suspects ?t (xs ! n))" using Suc.prems(1) by simp
  have "score_of (suspected_histogram ?t) v = score_of (suspected_histogram s) v + n"
    using Suc by simp
  moreover have "run s (take (Suc n) xs) = AddSample ?t (xs ! n)"
    using Suc.prems(2) by (simp add: run_take_Suc)
  ultimately show ?case
    using sus by (simp add: score_of_def map_of_AddSample [OF okt])
qed

lemma keys_AnalyzeDeltas:
  "fst ` set (suspected_histogram (AnalyzeDeltas s ds)) \<subseteq> set (current_suspects ds)"
  using keys_increase_scores [of "ranking_size s" "current_suspects ds"
      "erase_unsuspected (current_suspects ds) (suspected_histogram s)"]
  by (auto simp: AnalyzeDeltas_fields keys_erase_unsuspected)

section \<open>Signed ranking of the deltas\<close>
















section \<open>The claims\<close>

text \<open>
  C1, as stated, fails on the code: a class that the previous snapshot does not hold
  gets no entry in the list of deltas. After the snapshot \<open>{A:100}\<close>, the snapshot
  \<open>{A:150, B:40}\<close> yields the single delta \<open>A:50\<close>.
\<close>

theorem new_class_gets_no_delta_counterexample:
  "entries (cycle_deltas (AddSample (LeakAnalyzer_new 5 2) only_A) A_and_B) =
     [\<lparr>value_of = class_A, count_of = 50\<rparr>] \<and>
   \<lparr>value_of = class_B, count_of = 40\<rparr> \<notin>
     set (entries (cycle_deltas (AddSample (LeakAnalyzer_new 5 2) only_A) A_and_B)) \<and>
   length (entries (cycle_deltas (AddSample (LeakAnalyzer_new 5 2) only_A) A_and_B)) \<noteq>
     length (entries A_and_B)"
  by code_simp

text \<open>
  C1, amended. For every submitted snapshot that respects the capacity
  \<open>ranking_size\<close>, the list of deltas holds one entry per entry of the new snapshot
  whose class occurs in the previous snapshot, with delta = current count - previous
  count (modulo \<open>2 ^ 32\<close>); a class that the previous snapshot does not hold (every
  class on the very first call) gets no entry.
\<close>

theorem deltas_for_known_classes:
  assumes "length (entries x) \<le> ranking_size s"
  shows "mset (entries (cycle_deltas s x)) =
     mset (map (\<lambda>e. \<lparr>value_of = value_of e,
                     count_of = count_of e - snd (previous_count (entries (ranked_entries s)) (value_of e) 0)\<rparr>)
            (filter (\<lambda>e. value_of e \<in> value_of ` set (entries (ranked_entries s))) (entries x))) \<and>
   (\<forall>d\<in>set (entries (cycle_deltas s x)). value_of d \<in> value_of ` set (entries (ranked_entries s)))"
proof -
  note eq = mset_cycle_deltas [OF assms]
  have "value_of d \<in> value_of ` set (entries (ranked_entries s))"
    if "d \<in> set (entries (cycle_deltas s x))" for d
  proof -
    from that have "d \<in># mset (entries (cycle_deltas s x))" by simp
    then show ?thesis unfolding eq by auto
  qed
  with eq show ?thesis by blast
qed

text \<open>The theorem at the second cycle of the example: three known classes, three deltas.\<close>

theorem deltas_for_known_classes_witness:
  "length (entries cycle2) \<le> ranking_size (AddSample (LeakAnalyzer_new 5 2) cycle1) \<and>
   mset (entries (cycle_deltas (AddSample (LeakAnalyzer_new 5 2) cycle1) cycle2)) =
     {#\<lparr>value_of = class_A, count_of = 100\<rparr>, \<lparr>value_of = class_B, count_of = 5\<rparr>,
       \<lparr>value_of = class_C, count_of = 1\<rparr>#}"
proof -
  let ?s = "AddSample (LeakAnalyzer_new 5 2) cycle1"
  have len: "length (entries cycle2) \<le> ranking_size ?s" by code_simp
  have rhs: "map (\<lambda>e. \<lparr>value_of = value_of e,
                     count_of = count_of e - snd (previous_count (entries (ranked_entries ?s)) (value_of e) 0)\<rparr>)
            (filter (\<lambda>e. value_of e \<in> value_of ` set (entries (ranked_entries ?s))) (entries cycle2))
     = [\<lparr>value_of = class_A, count_of = 100\<rparr>, \<lparr>value_of = class_B, count_of = 5\<rparr>,
       \<lparr>value_of = class_C, count_of = 1\<rparr>]"
    by code_simp
  from deltas_for_known_classes [OF len] len show ?thesis
    unfolding rhs by simp
qed

text \<open>
  C2, as stated, fails on the code: with \<open>ranking_size = 5\<close> and \<open>score_threshold = 2\<close>
  the first snapshot yields no deltas, so classes A and B are not scored in cycle 1, and
  after cycle 2 class A has score 1 and is not reported.
\<close>

theorem example_counterexample:
  "entries (cycle_deltas (LeakAnalyzer_new 5 2) cycle1) = [] \<and>
   cycle_suspects (LeakAnalyzer_new 5 2) cycle1 \<noteq> [class_A, class_B] \<and>
   suspected_histogram (AddSample (LeakAnalyzer_new 5 2) cycle1) \<noteq> [(class_A, 1), (class_B, 1)] \<and>
   suspected_histogram (run (LeakAnalyzer_new 5 2) [cycle1, cycle2]) \<noteq> [(class_A, 2)] \<and>
   suspected_leaks (run (LeakAnalyzer_new 5 2) [cycle1, cycle2]) \<noteq> [class_A]"
  by code_simp

text \<open>
  C2, amended. With \<open>ranking_size = 5\<close> and \<open>score_threshold = 2\<close>, the snapshot
  \<open>{A:100, B:90, C:10}\<close> submitted first yields no deltas, no current suspects, an
  empty histogram and an empty list of suspected leaks; the snapshot
  \<open>{A:200, B:95, C:11}\<close> submitted next yields the deltas \<open>{A:100, B:5, C:1}\<close>, a drop
  after A, the current suspects \<open>{A}\<close>, the score 1 for A alone, and still no suspected
  leak.
\<close>

theorem example_as_computed:
  "entries (cycle_deltas (LeakAnalyzer_new 5 2) cycle1) = [] \<and>
   cycle_suspects (LeakAnalyzer_new 5 2) cycle1 = [] \<and>
   suspected_histogram (AddSample (LeakAnalyzer_new 5 2) cycle1) = [] \<and>
   suspected_leaks (AddSample (LeakAnalyzer_new 5 2) cycle1) = [] \<and>
   entries (cycle_deltas (AddSample (LeakAnalyzer_new 5 2) cycle1) cycle2) =
     entries (snapshot [(class_A, 100), (class_B, 5), (class_C, 1)]) \<and>
   drop_position (entries (cycle_deltas (AddSample (LeakAnalyzer_new 5 2) cycle1) cycle2)) = Some 1 \<and>
   cycle_suspects (AddSample (LeakAnalyzer_new 5 2) cycle1) cycle2 = [class_A] \<and>
   suspected_histogram (run (LeakAnalyzer_new 5 2) [cycle1, cycle2]) = [(class_A, 1)] \<and>
   suspected_leaks (run (LeakAnalyzer_new 5 2) [cycle1, cycle2]) = []"
  by code_simp

text \<open>
  The scan of \<^verbatim>\<open>AnalyzeDeltas\<close> where the product \<^verbatim>\<open>next_entry.count * 2\<close> does not
  overflow, that is for deltas from \<open>- 2 ^ 30\<close> up to \<open>2 ^ 30 - 1\<close>: the set of current
  suspects is the set of classes at positions \<open>0..i\<close> for the smallest \<open>i\<close> at which
  \<open>delta i > 2 * delta (i + 1)\<close>, provided the first delta is above 0; it is empty when
  the list has fewer than two entries, when the first delta is at most 0, and when no
  position is a cliff.
\<close>

lemma cliff_detector_in_range:
  fixes ds :: "('v::linorder) RankedList"
  assumes "doubling_defined (entries ds)"
  shows "(length (entries ds) < 2 \<longrightarrow> current_suspects ds = []) \<and>
         (delta_at (entries ds) 0 \<le> 0 \<longrightarrow> current_suspects ds = []) \<and>
         ((\<forall>i. \<not> cliff_at (entries ds) i) \<longrightarrow> current_suspects ds = []) \<and>
         (0 < delta_at (entries ds) 0 \<and> cliff_at (entries ds) i \<and>
          (\<forall>j<i. \<not> cliff_at (entries ds) j) \<longrightarrow>
            set (current_suspects ds) = value_of ` set (take (Suc i) (entries ds)))"
proof (intro conjI impI)
  assume "length (entries ds) < 2"
  then show "current_suspects ds = []"
    by (simp add: current_suspects_def drop_position_None_if)
next
  assume "delta_at (entries ds) 0 \<le> 0"
  then show "current_suspects ds = []"
    by (simp add: current_suspects_def drop_position_None_if)
next
  assume "\<forall>i. \<not> cliff_at (entries ds) i"
  with assms show "current_suspects ds = []"
    by (simp add: current_suspects_def drop_position_None_if)
next
  assume a: "0 < delta_at (entries ds) 0 \<and> cliff_at (entries ds) i \<and>
          (\<forall>j<i. \<not> cliff_at (entries ds) j)"
  with assms have "drop_position (entries ds) = Some (Suc i)"
    by (intro drop_position_cliff) auto
  then show "set (current_suspects ds) = value_of ` set (take (Suc i) (entries ds))"
    by (simp add: current_suspects_def set_fold_insort_insert)
qed

text \<open>
  At the deltas \<open>{A:100, B:90, C:10}\<close> the first cliff is at position 1 and the current
  suspects are A and B.
\<close>

lemma cliff_detector_in_range_example:
  "doubling_defined (entries cycle1) \<and> 0 < delta_at (entries cycle1) 0 \<and>
   cliff_at (entries cycle1) 1 \<and> \<not> cliff_at (entries cycle1) 0 \<and>
   set (current_suspects cycle1) = {class_A, class_B}"
proof -
  have d: "doubling_defined (entries cycle1)" by code_simp
  have p: "0 < delta_at (entries cycle1) 0" by code_simp
  have c: "cliff_at (entries cycle1) 1" by code_simp
  have n: "\<not> cliff_at (entries cycle1) 0" by code_simp
  have l: "\<forall>j<1. \<not> cliff_at (entries cycle1) j" using n by simp
  have v: "value_of ` set (take (Suc 1) (entries cycle1)) = {class_A, class_B}"
    by (simp add: cycle1_def snapshot_def)
  from cliff_detector_in_range [OF d, of 1] p c l v d n show ?thesis by simp
qed

text \<open>
  C3. The set of current suspects is to be the set of classes at positions \<open>0..i\<close> for
  the smallest \<open>i\<close> with \<open>delta i > 2 * delta (i + 1)\<close>, and empty when no such
  position exists. The code computes the product in 32 bits and departs from this where
  it overflows. Classes A and B both growing from 0 to \<open>2 ^ 30\<close> give the deltas
  \<open>{A: 2 ^ 30, B: 2 ^ 30}\<close>: no position is a cliff, yet the product wraps around to
  \<open>- 2 ^ 31\<close>, a drop is found, A is a current suspect and, at threshold 1, a reported
  leak. Class A growing by 10 while class B falls by \<open>2 ^ 30 + 1\<close> gives the deltas
  \<open>{A: 10, B: - 2 ^ 30 - 1}\<close>: position 0 is a cliff and the first delta is above 0,
  yet the product wraps around to \<open>2 ^ 31 - 2\<close>, no drop is found and no class is
  suspected.
\<close>

theorem doubling_overflow_finds_false_cliff:
  "entries (cycle_deltas (AddSample (LeakAnalyzer_new 5 1) zeros) both_grow) =
     [\<lparr>value_of = class_A, count_of = 1073741824\<rparr>,
      \<lparr>value_of = class_B, count_of = 1073741824\<rparr>] \<and>
   \<not> cliff_at (entries (cycle_deltas (AddSample (LeakAnalyzer_new 5 1) zeros) both_grow)) 0 \<and>
   cycle_suspects (AddSample (LeakAnalyzer_new 5 1) zeros) both_grow = [class_A] \<and>
   suspected_leaks (run (LeakAnalyzer_new 5 1) [zeros, both_grow]) = [class_A] \<and>
   entries (cycle_deltas (AddSample (LeakAnalyzer_new 5 1) before_fall) after_fall) =
     [\<lparr>value_of = class_A, count_of = 10\<rparr>,
      \<lparr>value_of = class_B, count_of = - 1073741825\<rparr>] \<and>
   0 < delta_at (entries (cycle_deltas (AddSample (LeakAnalyzer_new 5 1) before_fall) after_fall)) 0 \<and>
   cliff_at (entries (cycle_deltas (AddSample (LeakAnalyzer_new 5 1) before_fall) after_fall)) 0 \<and>
   cycle_suspects (AddSample (LeakAnalyzer_new 5 1) before_fall) after_fall = []"
  by code_simp




text \<open>
  C5. In a run of \<open>score_threshold\<close> consecutive cycles in each of which a class is a
  current suspect, the class is in the list of suspected leaks after the
  \<open>score_threshold\<close>-th cycle; when the histogram did not track the class before the run
  (it was not a suspect in the cycle before, or there was none), it is in that list
  after no earlier cycle of the run. The run starts in any state whose histogram is a
  well-formed map, as every state reached from the constructor is.
\<close>

theorem confirmed_at_threshold:
  assumes ok: "histogram_ok (suspected_histogram s)"
    and len: "score_threshold s \<le> length xs"
    and pos: "0 < score_threshold s"
    and streak: "\<forall>j. j < score_threshold s \<longrightarrow> v \<in> set (cycle_suspects (run s (take j xs)) (xs ! j))"
  shows "v \<in> set (suspected_leaks (run s (take (score_threshold s) xs))) \<and>
         (map_of (suspected_histogram s) v = None \<longrightarrow>
            (\<forall>j. 0 < j \<and> j < score_threshold s \<longrightarrow>
               v \<notin> set (suspected_leaks (run s (take j xs)))))"
proof -
  have leaks: "v \<in> set (suspected_leaks (run s (take (Suc i) xs))) \<longleftrightarrow>
      score_threshold s \<le> Suc (score_of (suspected_histogram s) v + i)"
    if i: "i < score_threshold s" for i
  proof -
    let ?t = "run s (take i xs)"
    have okt: "histogram_ok (suspected_histogram ?t)" using ok by (rule histogram_ok_run)
    have "\<forall>j<i. v \<in> set (cycle_suspects (run s (take j xs)) (xs ! j))"
      using streak i by simp
    from score_of_streak [OF ok this] i len
    have sc: "score_of (suspected_histogram ?t) v = score_of (suspected_histogram s) v + i"
      by simp
    have sus: "v \<in> set (cycle_suspects ?t (xs ! i))" using streak i by simp
    have "run s (take (Suc i) xs) = AddSample ?t (xs ! i)"
      using i len by (simp add: run_take_Suc)
    then show ?thesis
      using sus sc by (simp add: leaks_AddSample [OF okt] run_fields)
  qed
  from pos obtain m where m: "score_threshold s = Suc m" by (cases "score_threshold s") auto
  have "v \<in> set (suspected_leaks (run s (take (score_threshold s) xs)))"
    using leaks [of m] m by simp
  moreover have "v \<notin> set (suspected_leaks (run s (take j xs)))"
    if "map_of (suspected_histogram s) v = None" "0 < j" "j < score_threshold s" for j
  proof -
    from that(2) obtain i where j: "j = Suc i" by (cases j) auto
    with that(1,3) leaks [of i] show ?thesis by (simp add: score_of_def)
  qed
  ultimately show ?thesis by blast
qed

text \<open>
  The theorem at class A in the cycles 2 and 3 of the example, threshold 2: reported
  after cycle 3 and not after cycle 2.
\<close>

theorem confirmed_at_threshold_witness:
  "class_A \<in> set (suspected_leaks (run (AddSample (LeakAnalyzer_new 5 2) cycle1) [cycle2, cycle3])) \<and>
   class_A \<notin> set (suspected_leaks (run (AddSample (LeakAnalyzer_new 5 2) cycle1) [cycle2]))"
proof -
  let ?s = "AddSample (LeakAnalyzer_new 5 2) cycle1"
  let ?xs = "[cycle2, cycle3]"
  have th: "score_threshold ?s = 2" by code_simp
  have ok: "histogram_ok (suspected_histogram ?s)" by code_simp
  have fresh: "map_of (suspected_histogram ?s) class_A = None" by code_simp
  have len: "score_threshold ?s \<le> length ?xs" by code_simp
  have pos: "0 < score_threshold ?s" by code_simp
  have s0: "class_A \<in> set (cycle_suspects (run ?s (take 0 ?xs)) (?xs ! 0))" by code_simp
  have s1: "class_A \<in> set (cycle_suspects (run ?s (take 1 ?xs)) (?xs ! 1))" by code_simp
  have streak: "\<forall>j. j < score_threshold ?s \<longrightarrow> class_A \<in> set (cycle_suspects (run ?s (take j ?xs)) (?xs ! j))"
    unfolding th
  proof (intro allI impI)
    fix j :: nat assume "j < 2"
    then have "j = 0 \<or> j = 1" by auto
    with s0 s1 show "class_A \<in> set (cycle_suspects (run ?s (take j ?xs)) (?xs ! j))" by auto
  qed
  note at_input = confirmed_at_threshold [OF ok len pos streak, unfolded th]
  from at_input have "class_A \<in> set (suspected_leaks (run ?s (take 2 ?xs)))" by simp
  moreover from at_input fresh have "0 < (1::nat) \<and> (1::nat) < 2 \<longrightarrow>
      class_A \<notin> set (suspected_leaks (run ?s (take 1 ?xs)))" by blast
  ultimately show ?thesis by simp
qed

text \<open>
  C6. The second loop of a cycle, over the current suspects in the iteration order of
  their set: a class that the histogram tracks has its score increased by exactly 1;
  a class that it does not track is inserted with score 1 only while the histogram holds
  fewer than \<open>ranking_size\<close> entries, so of the new classes exactly the first
  \<open>ranking_size - size\<close> in iteration order are tracked and the others are dropped;
  no tracked class loses its entry. \<^verbatim>\<open>AnalyzeDeltas\<close> runs this loop on the histogram
  left by the erasing loop, with the current suspects in ascending key order.
\<close>

theorem reinforcement:
  fixes h :: "('v::linorder \<times> nat) list" and s :: "'v LeakAnalyzer"
  assumes "histogram_ok h" and "distinct cs"
  shows "map_of (increase_scores rs cs h) k =
     (case map_of h k of
        Some n \<Rightarrow> Some (if k \<in> set cs then n + 1 else n)
      | None \<Rightarrow>
          if k \<in> set (take (rs - length h) (filter (\<lambda>v. map_of h v = None) cs))
          then Some 1 else None) \<and>
    suspected_histogram (AnalyzeDeltas s ds) =
      increase_scores (ranking_size s) (current_suspects ds)
        (erase_unsuspected (current_suspects ds) (suspected_histogram s)) \<and>
    distinct (current_suspects ds) \<and> sorted (current_suspects ds)"
  using map_of_increase_scores [OF assms, of rs k]
  by (simp add: AnalyzeDeltas_fields distinct_current_suspects sorted_current_suspects)

text \<open>
  The theorem at capacity 1: of two new classes only the first in iteration order is
  tracked; a tracked class keeps its entry when a new class finds no room, and gains one
  point when it is a suspect.
\<close>

theorem reinforcement_witness:
  "map_of (increase_scores 1 [class_A, class_B] []) class_A = Some 1 \<and>
   map_of (increase_scores 1 [class_A, class_B] []) class_B = None \<and>
   map_of (increase_scores 1 [class_B] [(class_A, 3)]) class_A = Some 3 \<and>
   map_of (increase_scores 1 [class_A] [(class_A, 3)]) class_A = Some 4"
proof -
  have ok: "histogram_ok ([] :: (nat \<times> nat) list)" "histogram_ok [(class_A, 3)]"
    by (simp_all add: histogram_ok_def)
  have d: "distinct [class_A, class_B]" "distinct [class_B]" "distinct [class_A]"
    by (simp_all add: class_A_def class_B_def)
  have "map_of (increase_scores 1 [class_A, class_B] []) class_A = Some 1"
    using reinforcement [OF ok(1) d(1), of 1 class_A, THEN conjunct1]
    by (simp add: class_A_def class_B_def)
  moreover have "map_of (increase_scores 1 [class_A, class_B] []) class_B = None"
    using reinforcement [OF ok(1) d(1), of 1 class_B, THEN conjunct1]
    by (simp add: class_A_def class_B_def)
  moreover have "map_of (increase_scores 1 [class_B] [(class_A, 3)]) class_A = Some 3"
    using reinforcement [OF ok(2) d(2), of 1 class_A, THEN conjunct1]
    by (simp add: class_A_def class_B_def)
  moreover have "map_of (increase_scores 1 [class_A] [(class_A, 3)]) class_A = Some 4"
    using reinforcement [OF ok(2) d(3), of 1 class_A, THEN conjunct1]
    by (simp add: class_A_def class_B_def)
  ultimately show ?thesis by simp
qed

text \<open>
  C7. The first loop of a cycle removes from the histogram every class that is not a
  current suspect of the cycle and keeps the entries of the others; it runs before the
  scores are increased, and after the cycle the histogram tracks no class outside the
  cycle's current suspects.
\<close>

theorem decay_by_removal:
  fixes s :: "('v::linorder) LeakAnalyzer"
  shows "map_of (erase_unsuspected cs h) k = (if k \<in> set cs then map_of h k else None) \<and>
    (k \<notin> set (current_suspects ds) \<longrightarrow>
       map_of (suspected_histogram (AnalyzeDeltas s ds)) k = None) \<and>
    (k \<notin> set (cycle_suspects s x) \<longrightarrow>
       map_of (suspected_histogram (AddSample s x)) k = None)"
proof -
  have a: "map_of (suspected_histogram (AnalyzeDeltas s ds)) k = None"
    if "k \<notin> set (current_suspects ds)" for ds and s :: "'v LeakAnalyzer"
    using that keys_AnalyzeDeltas [of s ds] by (auto simp: map_of_None_iff)
  have "map_of (suspected_histogram (AddSample s x)) k = None"
    if "k \<notin> set (cycle_suspects s x)"
    using that a [of "cycle_deltas s x" "save_entries s x"]
    by (simp add: AddSample_AnalyzeDeltas cycle_suspects_def)
  with a show ?thesis by (simp add: map_of_erase_unsuspected)
qed

text \<open>
  The theorem at class A, which has score 1 after the two cycles of the example and is
  no suspect when the second snapshot is submitted once more.
\<close>

theorem decay_by_removal_witness:
  "map_of (suspected_histogram (run (LeakAnalyzer_new 5 2) [cycle1, cycle2])) class_A = Some 1 \<and>
   class_A \<notin> set (cycle_suspects (run (LeakAnalyzer_new 5 2) [cycle1, cycle2]) cycle2) \<and>
   map_of (suspected_histogram (AddSample (run (LeakAnalyzer_new 5 2) [cycle1, cycle2]) cycle2)) class_A = None"
proof -
  let ?s = "run (LeakAnalyzer_new 5 2) [cycle1, cycle2]"
  have before: "map_of (suspected_histogram ?s) class_A = Some 1" by code_simp
  have out: "class_A \<notin> set (cycle_suspects ?s cycle2)" by code_simp
  from decay_by_removal [of _ _ class_A _ ?s cycle2] out
  have "map_of (suspected_histogram (AddSample ?s cycle2)) class_A = None" by blast
  with before out show ?thesis by simp
qed

text \<open>
  C8. Each cycle rebuilds the list of suspected leaks from the histogram alone: it is the
  list of the classes whose score is at least \<open>score_threshold\<close>, in the histogram's
  key order, cut after \<open>ranking_size + 1\<close> entries. So it never holds more than
  \<open>ranking_size + 1\<close> classes, each of its classes has a tracked score of at least
  \<open>score_threshold\<close>, and it holds all such classes when the histogram has at most
  \<open>ranking_size + 1\<close> entries.
\<close>

theorem confirmation:
  fixes s :: "('v::linorder) LeakAnalyzer"
  shows "suspected_leaks (AnalyzeDeltas s ds) =
           take (ranking_size s + 1)
             (map fst (filter (\<lambda>(v, n). score_threshold s \<le> n)
                (suspected_histogram (AnalyzeDeltas s ds)))) \<and>
         length (suspected_leaks (AnalyzeDeltas s ds)) \<le> ranking_size s + 1 \<and>
         (\<forall>v\<in>set (suspected_leaks (AnalyzeDeltas s ds)).
            \<exists>n. (v, n) \<in> set (suspected_histogram (AnalyzeDeltas s ds)) \<and>
                score_threshold s \<le> n) \<and>
         (length (suspected_histogram (AnalyzeDeltas s ds)) \<le> ranking_size s + 1 \<longrightarrow>
            set (suspected_leaks (AnalyzeDeltas s ds)) =
              {v. \<exists>n. (v, n) \<in> set (suspected_histogram (AnalyzeDeltas s ds)) \<and>
                      score_threshold s \<le> n})"
proof -
  let ?h = "suspected_histogram (AnalyzeDeltas s ds)"
  let ?q = "map fst (filter (\<lambda>(v, n). score_threshold s \<le> n) ?h)"
  have eq: "suspected_leaks (AnalyzeDeltas s ds) = take (ranking_size s + 1) ?q"
    by (simp add: AnalyzeDeltas_fields(4) collect_leaks_take)
  have q: "set ?q = {v. \<exists>n. (v, n) \<in> set ?h \<and> score_threshold s \<le> n}"
    by force
  have "set (take (ranking_size s + 1) ?q) \<subseteq> set ?q" by (rule set_take_subset)
  with q have sub: "\<forall>v\<in>set (suspected_leaks (AnalyzeDeltas s ds)).
      \<exists>n. (v, n) \<in> set ?h \<and> score_threshold s \<le> n"
    unfolding eq by blast
  have "take (ranking_size s + 1) ?q = ?q" if "length ?h \<le> ranking_size s + 1"
    using that le_trans [OF length_filter_le that] by simp
  with q have full: "length ?h \<le> ranking_size s + 1 \<longrightarrow>
      set (suspected_leaks (AnalyzeDeltas s ds)) = {v. \<exists>n. (v, n) \<in> set ?h \<and> score_threshold s \<le> n}"
    unfolding eq by simp
  have "length (suspected_leaks (AnalyzeDeltas s ds)) \<le> ranking_size s + 1"
    unfolding eq by simp
  with eq sub full show ?thesis by blast
qed

text \<open>
  The theorem at capacity 1 with three tracked classes at the threshold (more than a
  run from the constructor ever tracks): the list holds \<open>ranking_size + 1 = 2\<close> of
  them.
\<close>

theorem confirmation_witness:
  "suspected_histogram (AnalyzeDeltas crowded three_before_drop) =
     [(class_A, 2), (class_B, 2), (class_C, 2)] \<and>
   suspected_leaks (AnalyzeDeltas crowded three_before_drop) = [class_A, class_B] \<and>
   length (suspected_leaks (AnalyzeDeltas crowded three_before_drop)) = ranking_size crowded + 1"
proof -
  have h: "suspected_histogram (AnalyzeDeltas crowded three_before_drop) =
     [(class_A, 2), (class_B, 2), (class_C, 2)]" by code_simp
  have rs: "ranking_size crowded = 1" and th: "score_threshold crowded = 1" by code_simp+
  from confirmation [of crowded three_before_drop]
  have "suspected_leaks (AnalyzeDeltas crowded three_before_drop) = [class_A, class_B]"
    unfolding h rs th by simp
  with h rs show ?thesis by simp
qed

text \<open>
  C9. After every sequence of submitted snapshots, starting from the constructor's state,
  the histogram holds at most \<open>ranking_size\<close> entries, each for a different class.
\<close>

theorem histogram_bounded:
  fixes xs :: "('v::linorder) RankedList list"
  shows "length (suspected_histogram (run (LeakAnalyzer_new rs th) xs)) \<le> rs \<and>
         distinct (map fst (suspected_histogram (run (LeakAnalyzer_new rs th) xs)))"
proof -
  let ?s = "LeakAnalyzer_new rs th :: 'v LeakAnalyzer"
  have ok: "histogram_ok (suspected_histogram ?s)" by (rule histogram_ok_new)
  have "length (suspected_histogram ?s) \<le> ranking_size ?s"
    by (simp add: LeakAnalyzer_new_def)
  from length_histogram_run [OF ok this, of xs]
  have "length (suspected_histogram (run ?s xs)) \<le> rs" by (simp add: LeakAnalyzer_new_def)
  moreover have "distinct (map fst (suspected_histogram (run ?s xs)))"
    using histogram_ok_run [OF ok] by (rule histogram_ok_distinct)
  ultimately show ?thesis by simp
qed

text \<open>
  C10. On a call with an empty previous snapshot, as the very first call is, the lookup
  of a previous count fails for every class and the list of deltas is empty; the set of
  current suspects, the histogram of scores and the list of suspected leaks are empty
  after the call, whatever the snapshot holds.
\<close>

theorem first_call_tracks_nothing:
  fixes s :: "('v::linorder) LeakAnalyzer"
  assumes "entries (ranked_entries s) = []"
  shows "\<not> fst (GetPreviousCountForValue (save_entries s x) v c) \<and>
         entries (cycle_deltas s x) = [] \<and>
         cycle_suspects s x = [] \<and>
         suspected_histogram (AddSample s x) = [] \<and>
         suspected_leaks (AddSample s x) = []"
proof -
  have prev: "entries (prev_ranked_entries (save_entries s x)) = []"
    using assms by (simp add: save_entries_fields)
  have deltas: "entries (cycle_deltas s x) = []"
    unfolding cycle_deltas_def compute_deltas_first [OF prev]
    by (simp add: RankedList_new_def)
  have suspects: "cycle_suspects s x = []"
    by (simp add: cycle_suspects_def current_suspects_def drop_position_def deltas)
  have h: "suspected_histogram (AddSample s x) = []"
    unfolding AddSample_fields(5) suspects
    by (simp add: increase_scores_def erase_unsuspected_def)
  have "suspected_leaks (AddSample s x) = []"
    by (simp add: AddSample_fields(6) h)
  with prev deltas suspects h show ?thesis
    by (simp add: GetPreviousCountForValue_def)
qed

text \<open>
  The theorem at the first call of the example.
\<close>

theorem first_call_tracks_nothing_witness:
  "entries (ranked_entries (LeakAnalyzer_new 5 2 :: nat LeakAnalyzer)) = [] \<and>
   \<not> fst (GetPreviousCountForValue (save_entries (LeakAnalyzer_new 5 2) cycle1) class_A 0) \<and>
   entries (cycle_deltas (LeakAnalyzer_new 5 2) cycle1) = [] \<and>
   cycle_suspects (LeakAnalyzer_new 5 2) cycle1 = [] \<and>
   suspected_histogram (AddSample (LeakAnalyzer_new 5 2) cycle1) = [] \<and>
   suspected_leaks (AddSample (LeakAnalyzer_new 5 2) cycle1) = []"
proof -
  have first: "entries (ranked_entries (LeakAnalyzer_new 5 2 :: nat LeakAnalyzer)) = []"
    by (simp add: LeakAnalyzer_new_def RankedList_new_def)
  from first_call_tracks_nothing [OF first, of cycle1 class_A 0] first
  show ?thesis by simp
qed

end
